theory Spec2Isabelle
  imports Main "HOL-Library.Multiset"
begin

section \<open>The fetchers of \<open>torch/utils/data/_utils/fetch.py\<close>\<close>

text \<open>
  The module defines a base class and three fetchers: \<open>_IterableDatasetFetcher\<close> pulls
  samples from an iterator over the dataset, \<open>_MapDatasetFetcher\<close> indexes the dataset,
  and \<open>_AsyncMapDatasetFetcher\<close> indexes it from a pool of asyncio workers.

  Exceptions are values: a call that may raise returns \<open>'e error + 'a\<close>, \<open>Inl\<close> being
  the raised exception. The constructors name the exceptions the module and the
  interpreter raise themselves; \<open>Raised x\<close> is any other \<open>Exception\<close> of a collaborator
  (the dataset or the collate function).
\<close>

datatype 'e error =
    StopIteration
  | NotImplementedError
  | TypeError
  | IndexError
  | ValueError
  | Raised 'e

text \<open>
  \<open>possibly_batched_index\<close> is either one key or a list of keys; Python does not say
  which, so both are values of one type. Iterating over, or taking \<open>len\<close> of, a single
  integer key raises \<open>TypeError\<close>.
\<close>

datatype pb_index = Idx int | Idxs "int list"

text \<open>\<open>data\<close>, the argument of \<open>collate_fn\<close>: one sample, or the list built by the fetcher.\<close>

datatype 's data = One 's | Batch "'s list"

subsection \<open>\<open>_BaseDatasetFetcher\<close>\<close>

record ('d, 'c) BaseDatasetFetcher =
  dataset :: 'd
  auto_collation :: bool
  collate_fn :: 'c
  drop_last :: bool

definition BaseDatasetFetcher_init ::
  "'d \<Rightarrow> bool \<Rightarrow> 'c \<Rightarrow> bool \<Rightarrow> ('d, 'c) BaseDatasetFetcher" where
  "BaseDatasetFetcher_init ds ac cf dl =
     \<lparr>dataset = ds, auto_collation = ac, collate_fn = cf, drop_last = dl\<rparr>"

definition BaseDatasetFetcher_fetch ::
  "('d, 'c) BaseDatasetFetcher \<Rightarrow> pb_index \<Rightarrow> 'e error + 'b" where
  "BaseDatasetFetcher_fetch self possibly_batched_index = Inl NotImplementedError"

subsection \<open>\<open>_IterableDatasetFetcher\<close>\<close>

text \<open>
  An iterable dataset is what \<open>iter(dataset)\<close> returns, a cursor of type \<open>'it\<close>, and
  what \<open>next\<close> does on a cursor: it returns a sample or raises, and leaves a new cursor.
  Nothing is assumed of \<open>next\<close>; in particular a cursor that has raised
  \<open>StopIteration\<close> may yield again.
\<close>

record ('e, 's, 'it) IterableDataset =
  iter_of :: 'it
  next_of :: "'it \<Rightarrow> ('e error + 's) \<times> 'it"

record ('e, 's, 'it, 'b) IterableDatasetFetcher =
  "(('e, 's, 'it) IterableDataset, 's data \<Rightarrow> 'e error + 'b) BaseDatasetFetcher" +
  dataset_iter :: 'it
  ended :: bool

definition IterableDatasetFetcher_init ::
  "('e, 's, 'it) IterableDataset \<Rightarrow> bool \<Rightarrow> ('s data \<Rightarrow> 'e error + 'b) \<Rightarrow> bool
     \<Rightarrow> ('e, 's, 'it, 'b) IterableDatasetFetcher" where
  "IterableDatasetFetcher_init ds ac cf dl =
     \<lparr>dataset = ds, auto_collation = ac, collate_fn = cf, drop_last = dl,
      dataset_iter = iter_of ds, ended = False\<rparr>"

text \<open>
  The \<open>for _ in possibly_batched_index\<close> loop of \<open>fetch\<close>. It leaves by running out of
  positions (\<open>Completed\<close>), by the \<open>break\<close> of the \<open>except StopIteration\<close> clause
  (\<open>Broke\<close>), or by any other exception of \<open>next\<close>, which nothing catches. The loop
  returns how it left, the cursor, \<open>data\<close>, and the outcomes of the calls of \<open>next\<close> it
  made, in order.
\<close>

datatype loop_exit = Completed | Broke

fun pull_loop ::
  "('it \<Rightarrow> ('e error + 's) \<times> 'it) \<Rightarrow> int list \<Rightarrow> 'it \<Rightarrow> 's list \<Rightarrow> ('e error + 's) list
     \<Rightarrow> ('e error + loop_exit) \<times> 'it \<times> 's list \<times> ('e error + 's) list" where
  "pull_loop nxt [] it data tr = (Inr Completed, it, data, tr)"
| "pull_loop nxt (p # ps) it data tr =
     (case nxt it of
        (Inr x, it') \<Rightarrow> pull_loop nxt ps it' (data @ [x]) (tr @ [Inr x])
      | (Inl e, it') \<Rightarrow>
          if e = StopIteration then (Inr Broke, it', data, tr @ [Inl e])
          else (Inl e, it', data, tr @ [Inl e]))"

text \<open>
  \<open>fetch\<close> returns what the caller gets, the fetcher after the call, and the outcomes of
  the calls of \<open>next\<close> on the cursor that the call made.
\<close>

definition IterableDatasetFetcher_fetch ::
  "('e, 's, 'it, 'b) IterableDatasetFetcher \<Rightarrow> pb_index
     \<Rightarrow> ('e error + 'b) \<times> ('e, 's, 'it, 'b) IterableDatasetFetcher \<times> ('e error + 's) list" where
  "IterableDatasetFetcher_fetch self possibly_batched_index =
     (if ended self then (Inl StopIteration, self, [])
      else if auto_collation self then
        (case possibly_batched_index of
           Idx k \<Rightarrow> (Inl TypeError, self, [])
         | Idxs ps \<Rightarrow>
             (case pull_loop (next_of (dataset self)) ps (dataset_iter self) [] [] of
                (Inl e, it', data, tr) \<Rightarrow> (Inl e, self\<lparr>dataset_iter := it'\<rparr>, tr)
              | (Inr ex, it', data, tr) \<Rightarrow>
                  (let self' = (if ex = Broke then self\<lparr>dataset_iter := it', ended := True\<rparr>
                                else self\<lparr>dataset_iter := it'\<rparr>)
                   in if length data = 0 \<or> (drop_last self \<and> length data < length ps)
                      then (Inl StopIteration, self', tr)
                      else (collate_fn self (Batch data), self', tr))))
      else
        (case next_of (dataset self) (dataset_iter self) of
           (Inl e, it') \<Rightarrow> (Inl e, self\<lparr>dataset_iter := it'\<rparr>, [Inl e])
         | (Inr x, it') \<Rightarrow> (collate_fn self (One x), self\<lparr>dataset_iter := it'\<rparr>, [Inr x])))"

text \<open>A caller making one \<open>fetch\<close> call after the other on the same fetcher.\<close>

fun fetch_calls ::
  "('e, 's, 'it, 'b) IterableDatasetFetcher \<Rightarrow> pb_index list
     \<Rightarrow> (('e error + 'b) \<times> ('e error + 's) list) list" where
  "fetch_calls self [] = []"
| "fetch_calls self (i # is) =
     (case IterableDatasetFetcher_fetch self i of
        (r, self', tr) \<Rightarrow> (r, tr) # fetch_calls self' is)"

text \<open>The iterator of a Python list: the cursor is the list of the items still to come.\<close>

definition list_next :: "'s list \<Rightarrow> ('e error + 's) \<times> 's list" where
  "list_next xs = (case xs of [] \<Rightarrow> (Inl StopIteration, []) | x # r \<Rightarrow> (Inr x, r))"

definition list_dataset :: "'s list \<Rightarrow> ('e, 's, 's list) IterableDataset" where
  "list_dataset xs = \<lparr>iter_of = xs, next_of = list_next\<rparr>"

subsection \<open>\<open>_MapDatasetFetcher\<close>\<close>

text \<open>
  \<open>hasattr(self.dataset, "__getitems__") and self.dataset.__getitems__\<close>: the attribute
  may be missing, present with a false value (\<open>None\<close>), or a method.
\<close>

datatype 'f attr = Missing | Falsy | Method 'f

record ('e, 's) MapDataset =
  getitem :: "pb_index \<Rightarrow> 'e error + 's"
  getitems :: "(pb_index \<Rightarrow> 'e error + 's list) attr"

text \<open>The calls a fetcher makes on a map-style dataset.\<close>

datatype call = GetItem pb_index | GetItems pb_index

text \<open>
  The comprehension \<open>[self.dataset[idx] for idx in possibly_batched_index]\<close>: the first
  \<open>dataset[idx]\<close> that raises ends it. It returns the list or the exception, and the calls
  made.
\<close>

fun getitem_each ::
  "(pb_index \<Rightarrow> 'e error + 's) \<Rightarrow> int list \<Rightarrow> ('e error + 's list) \<times> call list" where
  "getitem_each get [] = (Inr [], [])"
| "getitem_each get (idx # ps) =
     (case get (Idx idx) of
        Inl e \<Rightarrow> (Inl e, [GetItem (Idx idx)])
      | Inr x \<Rightarrow>
          (case getitem_each get ps of
             (Inl e, cs) \<Rightarrow> (Inl e, GetItem (Idx idx) # cs)
           | (Inr xs, cs) \<Rightarrow> (Inr (x # xs), GetItem (Idx idx) # cs)))"

text \<open>The value of \<open>data\<close> in \<open>_MapDatasetFetcher.fetch\<close>, and the calls made for it.\<close>

definition MapDatasetFetcher_data ::
  "(('e, 's) MapDataset, 'c) BaseDatasetFetcher \<Rightarrow> pb_index \<Rightarrow> ('e error + 's data) \<times> call list" where
  "MapDatasetFetcher_data self possibly_batched_index =
     (if auto_collation self then
        (case getitems (dataset self) of
           Method bulk \<Rightarrow>
             (map_sum id Batch (bulk possibly_batched_index), [GetItems possibly_batched_index])
         | _ \<Rightarrow>
             (case possibly_batched_index of
                Idx k \<Rightarrow> (Inl TypeError, [])
              | Idxs ps \<Rightarrow>
                  (case getitem_each (getitem (dataset self)) ps of
                     (r, cs) \<Rightarrow> (map_sum id Batch r, cs))))
      else
        (map_sum id One (getitem (dataset self) possibly_batched_index),
         [GetItem possibly_batched_index]))"

definition MapDatasetFetcher_fetch ::
  "(('e, 's) MapDataset, 's data \<Rightarrow> 'e error + 'b) BaseDatasetFetcher \<Rightarrow> pb_index
     \<Rightarrow> ('e error + 'b) \<times> call list" where
  "MapDatasetFetcher_fetch self possibly_batched_index =
     (case MapDatasetFetcher_data self possibly_batched_index of
        (Inl e, cs) \<Rightarrow> (Inl e, cs)
      | (Inr data, cs) \<Rightarrow> (collate_fn self data, cs))"

text \<open>The call \<open>c\<close> on the dataset \<open>ds\<close> raises \<open>e\<close>.\<close>

fun raises :: "('e, 's) MapDataset \<Rightarrow> call \<Rightarrow> 'e error \<Rightarrow> bool" where
  "raises ds (GetItem i) e = (getitem ds i = Inl e)"
| "raises ds (GetItems i) e = (case getitems ds of Method bulk \<Rightarrow> bulk i = Inl e | _ \<Rightarrow> False)"

subsection \<open>\<open>_AsyncMapDatasetFetcher\<close>\<close>

text \<open>
  \<open>collate_fn\<close> is tested against \<open>None\<close> here, so it is optional. Its value is
  subscripted with \<open>[1]\<close>: it is a sequence, and the subscript raises \<open>IndexError\<close> on
  a sequence of fewer than two elements. \<open>fetch\<close> returns the subscripted value, or
  \<open>result_list\<close> itself when there is no \<open>collate_fn\<close>.
\<close>

datatype ('s, 'b) fetched = Collated 'b | Uncollated "(int \<times> 's) list"

record ('e, 's, 'b) AsyncMapDatasetFetcher =
  "(('e, 's) MapDataset, ((int \<times> 's) list \<Rightarrow> 'e error + 'b list) option) BaseDatasetFetcher" +
  thread_pool_size :: nat

text \<open>\<open>ThreadPoolExecutor(num_fetch_workers)\<close> raises \<open>ValueError\<close> unless the number is positive.\<close>

definition AsyncMapDatasetFetcher_init ::
  "('e, 's) MapDataset \<Rightarrow> bool \<Rightarrow> ((int \<times> 's) list \<Rightarrow> 'e error + 'b list) option \<Rightarrow> bool \<Rightarrow> int
     \<Rightarrow> 'e error + ('e, 's, 'b) AsyncMapDatasetFetcher" where
  "AsyncMapDatasetFetcher_init ds ac cf dl num_fetch_workers =
     (if num_fetch_workers \<le> 0 then Inl ValueError
      else Inr \<lparr>dataset = ds, auto_collation = ac, collate_fn = cf, drop_last = dl,
                thread_pool_size = nat num_fetch_workers\<rparr>)"

text \<open>
  The event loop runs one worker coroutine at a time, from one suspension to the next.
  A worker that finds \<open>task_queue\<close> non-empty takes a position without suspending
  (\<open>Queue.get\<close> suspends on an empty queue only) and suspends in \<open>run_in_executor\<close>.
  So between two runs a worker is \<open>Created\<close> (its task exists and has not run),
  \<open>Awaiting index\<close> (suspended while a pool thread computes
  \<open>dataset.__getitem__(index)\<close>), \<open>Stuck index\<close> (suspended on a future that will
  never be done, see \<open>worker_resume\<close>), or \<open>Returned\<close> (the coroutine has finished,
  by leaving its loop or by an exception; \<open>gather\<close> is called with
  \<open>return_exceptions=True\<close> and takes either as the task's result).

  The pool state of one \<open>initiate_fetch_tasks\<close>: the two queues, the workers, and what
  the workers have printed (the worker's id and the exception).
\<close>

datatype wstate = Created | Awaiting int | Stuck int | Returned

record ('e, 's) pool =
  task_queue :: "int list"
  result_queue :: "(int \<times> 's) list"
  workers :: "wstate list"
  printed :: "(nat \<times> 'e error) list"

text \<open>
  The head of the worker's loop: \<open>while not task_queue.empty(): index = await
  task_queue.get()\<close>, up to the suspension in \<open>run_in_executor\<close>.
\<close>

definition worker_loop :: "('e, 's) pool \<Rightarrow> nat \<Rightarrow> ('e, 's) pool" where
  "worker_loop p worker_id =
     (case task_queue p of
        [] \<Rightarrow> p\<lparr>workers := (workers p)[worker_id := Returned]\<rparr>
      | index # q \<Rightarrow> p\<lparr>task_queue := q, workers := (workers p)[worker_id := Awaiting index]\<rparr>)"

text \<open>
  The pool thread has finished \<open>dataset.__getitem__(index)\<close>, and the loop copies the
  outcome to the future that the worker awaits.
  \<^item> A sample: the worker resumes, puts the pair on \<open>result_queue\<close> and goes to the
    head of its loop.
  \<^item> \<open>StopIteration\<close>: \<open>asyncio.Future.set_exception\<close> refuses it with a
    \<open>TypeError\<close>, raised in the loop's callback and not in the worker. The future is
    never done and the worker never resumes.
  \<^item> Any other exception: the worker resumes in \<open>except Exception\<close> and prints.
    \<open>prints worker_id e\<close> tells whether the \<open>print\<close> statement, which calls
    \<open>str(e)\<close> and writes to the standard output, completes. When it does, the worker
    goes to the head of its loop. When it raises, nothing catches that: after
    \<open>task_done\<close> the coroutine ends, whatever is left on \<open>task_queue\<close>.
\<close>

definition worker_resume ::
  "(pb_index \<Rightarrow> 'e error + 's) \<Rightarrow> (nat \<Rightarrow> 'e error \<Rightarrow> bool) \<Rightarrow> ('e, 's) pool \<Rightarrow> nat \<Rightarrow> int
     \<Rightarrow> ('e, 's) pool" where
  "worker_resume get prints p worker_id index =
     (case get (Idx index) of
        Inr result \<Rightarrow>
          worker_loop (p\<lparr>result_queue := result_queue p @ [(index, result)]\<rparr>) worker_id
      | Inl e \<Rightarrow>
          if e = StopIteration then p\<lparr>workers := (workers p)[worker_id := Stuck index]\<rparr>
          else if prints worker_id e
          then worker_loop (p\<lparr>printed := printed p @ [(worker_id, e)]\<rparr>) worker_id
          else p\<lparr>workers := (workers p)[worker_id := Returned]\<rparr>)"

definition worker ::
  "(pb_index \<Rightarrow> 'e error + 's) \<Rightarrow> (nat \<Rightarrow> 'e error \<Rightarrow> bool) \<Rightarrow> ('e, 's) pool \<Rightarrow> nat
     \<Rightarrow> ('e, 's) pool" where
  "worker get prints p worker_id =
     (case workers p ! worker_id of
        Created \<Rightarrow> worker_loop p worker_id
      | Awaiting index \<Rightarrow> worker_resume get prints p worker_id index
      | Stuck index \<Rightarrow> p
      | Returned \<Rightarrow> p)"

text \<open>The workers that the loop can still run, in the order of their ids.\<close>

fun runnable :: "wstate \<Rightarrow> bool" where
  "runnable Created = True"
| "runnable (Awaiting index) = True"
| "runnable (Stuck index) = False"
| "runnable Returned = False"

fun stuck :: "wstate \<Rightarrow> bool" where
  "stuck (Stuck index) = True"
| "stuck s = False"

definition live :: "('e, 's) pool \<Rightarrow> nat list" where
  "live p = filter (\<lambda>w. runnable (workers p ! w)) [0..<length (workers p)]"

definition unreturned :: "wstate list \<Rightarrow> nat" where
  "unreturned ws = length (filter runnable ws)"

text \<open>
  The event loop while \<open>initiate_fetch_tasks\<close> awaits \<open>asyncio.gather(*tasks)\<close>: it
  runs workers as long as one can run. Which worker runs next depends on the order in
  which the pool threads finish, which the program does not decide: the schedule
  \<open>sched\<close> decides it, each of its numbers choosing one of the workers that can run
  (the first of them once the schedule is used up). Every order of completion is the
  run of some schedule. The event loop itself starts the created workers in the order
  of their ids before it resumes any of them; the schedules allow these runs and
  others, so what holds under every schedule holds in every run of the loop.
\<close>

function gather ::
  "(pb_index \<Rightarrow> 'e error + 's) \<Rightarrow> (nat \<Rightarrow> 'e error \<Rightarrow> bool) \<Rightarrow> nat list \<Rightarrow> ('e, 's) pool
     \<Rightarrow> ('e, 's) pool" where
  "gather get prints sched p =
     (if live p = [] then p
      else gather get prints (tl sched)
             (worker get prints p
                (live p ! (case sched of [] \<Rightarrow> 0 | c # cs \<Rightarrow> c mod length (live p)))))"
  by pat_completeness auto

termination gather
proof (relation
    "measure (\<lambda>(get, prints, sched, p). length (task_queue p) + unreturned (workers p))")
  show "wf (measure (\<lambda>(get, prints, sched, p). length (task_queue p) + unreturned (workers p)))"
    by simp
next
  fix get :: "pb_index \<Rightarrow> 'e error + 's" and prints :: "nat \<Rightarrow> 'e error \<Rightarrow> bool"
    and sched :: "nat list" and p :: "('e, 's) pool"
  let ?w = "live p ! (case sched of [] \<Rightarrow> 0 | c # cs \<Rightarrow> c mod length (live p))"
  let ?m = "\<lambda>q :: ('e, 's) pool. length (task_queue q) + unreturned (workers q)"
  assume "live p \<noteq> []"
  then have "?w \<in> set (live p)"
    by (cases sched) simp_all
  then have w: "?w < length (workers p)" "runnable (workers p ! ?w)"
    by (simp_all add: live_def)
  have ended: "unreturned (ws[i := s]) < unreturned ws"
    if "i < length ws" "runnable (ws ! i)" "\<not> runnable s" for ws i s
    using that unfolding unreturned_def
  proof (induction ws arbitrary: i)
    case Nil
    then show ?case by simp
  next
    case (Cons a ws)
    then show ?case by (cases i) auto
  qed
  have awaiting: "unreturned (ws[i := Awaiting k]) = unreturned ws"
    if "i < length ws" "runnable (ws ! i)" for ws i k
    using that unfolding unreturned_def
  proof (induction ws arbitrary: i)
    case Nil
    then show ?case by simp
  next
    case (Cons a ws)
    then show ?case by (cases i) auto
  qed
  have loop: "?m (worker_loop q ?w) < ?m q"
    if "workers q = workers p" for q :: "('e, 's) pool"
    using w that by (cases "task_queue q") (simp_all add: worker_loop_def ended awaiting)
  have "?m (worker get prints p ?w) < ?m p"
  proof (cases "workers p ! ?w")
    case Created
    then show ?thesis using loop [of p] by (simp add: worker_def)
  next
    case (Awaiting k)
    show ?thesis
    proof (cases "get (Idx k)")
      case (Inl e)
      show ?thesis
      proof (cases "e = StopIteration \<or> \<not> prints ?w e")
        case True
        then show ?thesis
          using Awaiting Inl w ended [of ?w "workers p"]
          by (auto simp: worker_def worker_resume_def)
      next
        case False
        then show ?thesis
          using Awaiting Inl loop [of "p\<lparr>printed := printed p @ [(?w, e)]\<rparr>"]
          by (simp add: worker_def worker_resume_def)
      qed
    next
      case (Inr r)
      then show ?thesis
        using Awaiting loop [of "p\<lparr>result_queue := result_queue p @ [(k, r)]\<rparr>"]
        by (simp add: worker_def worker_resume_def)
    qed
  next
    case (Stuck k)
    with w show ?thesis by simp
  next
    case Returned
    with w show ?thesis by simp
  qed
  then show "((get, prints, tl sched, worker get prints p ?w), (get, prints, sched, p))
      \<in> measure (\<lambda>(get, prints, sched, p). length (task_queue p) + unreturned (workers p))"
    by simp
qed

declare gather.simps [simp del]

text \<open>
  \<open>initiate_fetch_tasks\<close>: the positions are put on \<open>task_queue\<close> in their order,
  \<open>thread_pool_size\<close> workers are created and awaited, \<open>result_queue\<close> is read into
  \<open>result_list\<close>, and \<open>result_list.sort(key=lambda v: v[0])\<close> sorts it by position
  (the sort is stable, as \<open>sort_key\<close> is).

  The \<open>await\<close> of \<open>gather\<close> completes when every worker has finished. When the loop
  has no worker left to run and one is stuck, it never completes, and neither does
  \<open>initiate_fetch_tasks\<close> nor \<open>fetch\<close>: their value is then \<open>None\<close>.
\<close>

definition new_pool :: "nat \<Rightarrow> int list \<Rightarrow> ('e, 's) pool" where
  "new_pool n batch_indices =
     \<lparr>task_queue = batch_indices, result_queue = [], workers = replicate n Created, printed = []\<rparr>"

definition awaited_tasks ::
  "('e, 's, 'b) AsyncMapDatasetFetcher \<Rightarrow> (nat \<Rightarrow> 'e error \<Rightarrow> bool) \<Rightarrow> nat list \<Rightarrow> int list
     \<Rightarrow> ('e, 's) pool" where
  "awaited_tasks self prints sched batch_indices =
     gather (getitem (dataset self)) prints sched (new_pool (thread_pool_size self) batch_indices)"

definition result_list ::
  "('e, 's, 'b) AsyncMapDatasetFetcher \<Rightarrow> (nat \<Rightarrow> 'e error \<Rightarrow> bool) \<Rightarrow> nat list \<Rightarrow> int list
     \<Rightarrow> (int \<times> 's) list" where
  "result_list self prints sched batch_indices =
     sort_key fst (result_queue (awaited_tasks self prints sched batch_indices))"

definition initiate_fetch_tasks ::
  "('e, 's, 'b) AsyncMapDatasetFetcher \<Rightarrow> (nat \<Rightarrow> 'e error \<Rightarrow> bool) \<Rightarrow> nat list \<Rightarrow> int list
     \<Rightarrow> ('e error + ('s, 'b) fetched) option" where
  "initiate_fetch_tasks self prints sched batch_indices =
     (if list_ex stuck (workers (awaited_tasks self prints sched batch_indices)) then None
      else Some
        (case collate_fn self of
           Some cf \<Rightarrow>
             (case cf (result_list self prints sched batch_indices) of
                Inl e \<Rightarrow> Inl e
              | Inr v \<Rightarrow> if 1 < length v then Inr (Collated (v ! 1)) else Inl IndexError)
         | None \<Rightarrow> Inr (Uncollated (result_list self prints sched batch_indices))))"

text \<open>What the workers of one call print, in the order in which they print it.\<close>

definition worker_output ::
  "('e, 's, 'b) AsyncMapDatasetFetcher \<Rightarrow> (nat \<Rightarrow> 'e error \<Rightarrow> bool) \<Rightarrow> nat list \<Rightarrow> int list
     \<Rightarrow> (nat \<times> 'e error) list" where
  "worker_output self prints sched batch_indices =
     printed (awaited_tasks self prints sched batch_indices)"

text \<open>\<open>fetch\<close>: \<open>self.loop.run_until_complete(self.initiate_fetch_tasks(batch_indices))\<close>.\<close>

definition AsyncMapDatasetFetcher_fetch ::
  "('e, 's, 'b) AsyncMapDatasetFetcher \<Rightarrow> (nat \<Rightarrow> 'e error \<Rightarrow> bool) \<Rightarrow> nat list \<Rightarrow> int list
     \<Rightarrow> ('e error + ('s, 'b) fetched) option" where
  "AsyncMapDatasetFetcher_fetch self prints sched batch_indices =
     initiate_fetch_tasks self prints sched batch_indices"

subsection \<open>What a call to the asynchronous fetcher has to retrieve\<close>

text \<open>
  The positions of a batch whose \<open>dataset.__getitem__\<close> does not raise, each paired
  with its sample, in the order of the batch.
\<close>

definition retrieved :: "(pb_index \<Rightarrow> 'e error + 's) \<Rightarrow> int list \<Rightarrow> (int \<times> 's) list" where
  "retrieved get ps = map (\<lambda>p. (p, projr (get (Idx p)))) (filter (\<lambda>p. \<not> isl (get (Idx p))) ps)"

text \<open>
  The positions a pool still has to deal with: those on \<open>task_queue\<close> and those that a
  worker has taken and is awaiting.
\<close>

fun awaited :: "wstate \<Rightarrow> int list" where
  "awaited (Awaiting index) = [index]"
| "awaited s = []"

definition outstanding :: "('e, 's) pool \<Rightarrow> int list" where
  "outstanding p = task_queue p @ concat (map awaited (workers p))"

text \<open>
  What \<open>result_queue\<close> would hold if every outstanding position were dealt with.
\<close>

definition total :: "(pb_index \<Rightarrow> 'e error + 's) \<Rightarrow> ('e, 's) pool \<Rightarrow> (int \<times> 's) multiset" where
  "total get p = mset (result_queue p) + mset (retrieved get (outstanding p))"

text \<open>
  The retrieval of a position is \<open>handled\<close> when it returns a sample or raises an
  exception that reaches the worker's handler and that the handler can print.
\<close>

definition handled ::
  "(pb_index \<Rightarrow> 'e error + 's) \<Rightarrow> (nat \<Rightarrow> 'e error \<Rightarrow> bool) \<Rightarrow> int \<Rightarrow> bool" where
  "handled get prints q \<longleftrightarrow>
     (case get (Idx q) of Inr r \<Rightarrow> True | Inl e \<Rightarrow> e \<noteq> StopIteration \<and> (\<forall>w. prints w e))"

text \<open>
  While every retrieval is handled, a worker returns only when it finds \<open>task_queue\<close>
  empty, and nothing is put on the queue after the workers are created: no worker is
  stuck, and while positions are queued there is a worker and none has returned.
\<close>

definition serving :: "('e, 's) pool \<Rightarrow> bool" where
  "serving p \<longleftrightarrow>
     (\<forall>s\<in>set (workers p). \<not> stuck s)
     \<and> (task_queue p = [] \<or> (workers p \<noteq> [] \<and> Returned \<notin> set (workers p)))"

section \<open>The iterable-style fetcher\<close>

text \<open>A fetcher that has ended raises \<open>StopIteration\<close> and leaves the cursor alone.\<close>

lemma fetch_ended:
  "ended f \<Longrightarrow> IterableDatasetFetcher_fetch f idx = (Inl StopIteration, f, [])"
  by (simp add: IterableDatasetFetcher_fetch_def)

lemma fetch_calls_ended:
  "ended f \<Longrightarrow> fetch_calls f idxs = map (\<lambda>i. (Inl StopIteration, [])) idxs"
  by (induction idxs) (simp_all add: fetch_ended)

text \<open>The loop looks at the number of positions only.\<close>

lemma pull_loop_length_only:
  "length ps = length qs \<Longrightarrow> pull_loop nxt ps it d tr = pull_loop nxt qs it d tr"
proof (induction ps arbitrary: qs it d tr)
  case Nil
  then show ?case by simp
next
  case (Cons p ps)
  then obtain q qs' where qs: "qs = q # qs'" "length ps = length qs'"
    by (cases qs) auto
  show ?case
    unfolding qs pull_loop.simps using Cons.IH [OF qs(2)]
    by (simp split: prod.splits sum.splits)
qed

text \<open>The exception that leaves the loop is never \<open>StopIteration\<close>: that one is caught.\<close>

lemma pull_loop_Inl:
  "pull_loop nxt ps it d tr = (Inl e, it', d', tr') \<Longrightarrow> e \<noteq> StopIteration"
  by (induction ps arbitrary: it d tr) (auto split: prod.splits sum.splits if_splits)

text \<open>A loop that was not left early has appended one sample for each position.\<close>

lemma pull_loop_Completed:
  "pull_loop nxt ps it d tr = (Inr Completed, it', d', tr') \<Longrightarrow> length d' = length d + length ps"
  by (induction ps arbitrary: it d tr) (fastforce split: prod.splits sum.splits if_splits)+

text \<open>An exception of \<open>next\<close> other than \<open>StopIteration\<close> is what the loop raises.\<close>

lemma pull_loop_raised:
  "pull_loop nxt ps it d tr = (x, it', d', tr') \<Longrightarrow> Inl e \<in> set tr' \<Longrightarrow> Inl e \<notin> set tr
     \<Longrightarrow> e \<noteq> StopIteration \<Longrightarrow> x = Inl e"
proof (induction ps arbitrary: it d tr)
  case Nil
  then show ?case by simp
next
  case (Cons p ps)
  show ?case
  proof (cases "nxt it")
    case (Pair o1 it1)
    show ?thesis
    proof (cases o1)
      case (Inl e1)
      with Pair Cons.prems show ?thesis by (auto split: if_splits)
    next
      case (Inr s1)
      with Pair Cons.prems have "pull_loop nxt ps it1 (d @ [s1]) (tr @ [Inr s1]) = (x, it', d', tr')"
        by simp
      moreover have "Inl e \<notin> set (tr @ [Inr s1])" using Cons.prems by simp
      ultimately show ?thesis using Cons.IH Cons.prems by blast
    qed
  qed
qed

text \<open>
  C4, in the form that holds. With \<open>auto_collation\<close> set, a non-empty list of positions and a
  \<open>collate_fn\<close> that does not itself raise \<open>StopIteration\<close>, a \<open>fetch\<close> that raises
  \<open>StopIteration\<close> leaves \<open>ended\<close> set; and from then on every \<open>fetch\<close>, whatever its
  argument, raises \<open>StopIteration\<close> at once, with no call of \<open>next\<close> on the cursor and
  the fetcher unchanged.
\<close>

theorem C4_ended_is_sticky:
  assumes ac: "auto_collation f" and ne: "ps \<noteq> []"
    and cf: "\<forall>d. collate_fn f d \<noteq> Inl StopIteration"
    and ex: "IterableDatasetFetcher_fetch f (Idxs ps) = (Inl StopIteration, f', tr)"
  shows "ended f' \<and> (\<forall>idx. IterableDatasetFetcher_fetch f' idx = (Inl StopIteration, f', []))
     \<and> (\<forall>idxs. fetch_calls f' idxs = map (\<lambda>i. (Inl StopIteration, [])) idxs)"
proof -
  have "ended f'"
  proof (cases "ended f")
    case True
    with ex show ?thesis by (simp add: IterableDatasetFetcher_fetch_def)
  next
    case False
    obtain x it' d' tr' where
      pl: "pull_loop (next_of (dataset f)) ps (dataset_iter f) [] [] = (x, it', d', tr')"
      by (metis prod_cases4)
    show ?thesis
    proof (cases x)
      case (Inl e)
      with pl have "e \<noteq> StopIteration" by (auto dest: pull_loop_Inl)
      with ex False ac pl Inl show ?thesis by (simp add: IterableDatasetFetcher_fetch_def)
    next
      case (Inr lx)
      show ?thesis
      proof (cases lx)
        case Completed
        with pl Inr have "length d' = length ps" by (auto dest: pull_loop_Completed)
        with ne have "d' \<noteq> []" "\<not> length d' < length ps" by auto
        with ex False ac pl Inr Completed cf show ?thesis
          by (auto simp: IterableDatasetFetcher_fetch_def Let_def)
      next
        case Broke
        with ex False ac pl Inr show ?thesis
          by (auto simp: IterableDatasetFetcher_fetch_def Let_def split: if_splits)
      qed
    qed
  qed
  then show ?thesis by (simp add: fetch_ended fetch_calls_ended)
qed

text \<open>
  The theorem at a fetcher over the empty list: the first \<open>fetch\<close> asks the cursor once
  and raises \<open>StopIteration\<close>, the two calls after it do not ask.
\<close>

theorem C4_ended_is_sticky_witness:
  "auto_collation (IterableDatasetFetcher_init (list_dataset ([] :: int list)) True
       (\<lambda>d. Inr d :: unit error + int data) False)
   \<and> [0 :: int] \<noteq> []
   \<and> IterableDatasetFetcher_fetch
        (IterableDatasetFetcher_init (list_dataset ([] :: int list)) True
           (\<lambda>d. Inr d :: unit error + int data) False) (Idxs [0])
      = (Inl StopIteration,
         (IterableDatasetFetcher_init (list_dataset ([] :: int list)) True
            (\<lambda>d. Inr d :: unit error + int data) False)\<lparr>dataset_iter := [], ended := True\<rparr>,
         [Inl StopIteration])
   \<and> fetch_calls
        ((IterableDatasetFetcher_init (list_dataset ([] :: int list)) True
            (\<lambda>d. Inr d :: unit error + int data) False)\<lparr>dataset_iter := [], ended := True\<rparr>)
        [Idx 3, Idxs [1, 2]]
      = [(Inl StopIteration, []), (Inl StopIteration, [])]"
proof -
  let ?f = "IterableDatasetFetcher_init (list_dataset ([] :: int list)) True
       (\<lambda>d. Inr d :: unit error + int data) False"
  have h1: "auto_collation ?f"
    by (simp add: IterableDatasetFetcher_init_def)
  have h2: "[0 :: int] \<noteq> []"
    by simp
  have h3: "\<forall>d. collate_fn ?f d \<noteq> Inl StopIteration"
    by (simp add: IterableDatasetFetcher_init_def)
  have h4: "IterableDatasetFetcher_fetch ?f (Idxs [0])
      = (Inl StopIteration, ?f\<lparr>dataset_iter := [], ended := True\<rparr>, [Inl StopIteration])"
    by (simp add: IterableDatasetFetcher_fetch_def IterableDatasetFetcher_init_def
        list_dataset_def list_next_def)
  from C4_ended_is_sticky [OF h1 h2 h3 h4] h1 h4 show ?thesis
    by simp
qed

text \<open>
  The claim as stated fails without \<open>auto_collation\<close>: that branch never sets \<open>ended\<close>.
  A fetcher over the empty list raises \<open>StopIteration\<close> on the first call, and the second
  call asks the cursor again.
\<close>

theorem C4_counterexample:
  "fetch_calls
     (IterableDatasetFetcher_init (list_dataset ([] :: int list)) False
        (\<lambda>d. Inr d :: unit error + int data) False)
     [Idx 0, Idx 1]
   = [(Inl StopIteration, [Inl StopIteration]), (Inl StopIteration, [Inl StopIteration])]"
  by (simp add: IterableDatasetFetcher_fetch_def IterableDatasetFetcher_init_def
      list_dataset_def list_next_def)

text \<open>
  C6: with \<open>auto_collation\<close> and \<open>drop_last\<close>, over a source of exactly three items, a
  \<open>fetch\<close> for four positions pulls the three items, meets the end, and raises
  \<open>StopIteration\<close>; every later call raises \<open>StopIteration\<close> without asking the cursor.
  No call returns a batch, whatever \<open>collate_fn\<close> is: the three samples are dropped.
\<close>

theorem C6_drop_last_short_batch:
  "fetch_calls (IterableDatasetFetcher_init (list_dataset [a, b, c]) True cf True)
       (Idxs [p1, p2, p3, p4] # later)
   = (Inl StopIteration, [Inr a, Inr b, Inr c, Inl StopIteration])
       # map (\<lambda>i. (Inl StopIteration, [])) later"
  by (simp add: IterableDatasetFetcher_fetch_def IterableDatasetFetcher_init_def
      list_dataset_def list_next_def fetch_calls_ended)

text \<open>
  C7: the same without \<open>drop_last\<close>: the first \<open>fetch\<close> returns \<open>collate_fn\<close> of the
  three samples, in the order of the source, and every later call raises
  \<open>StopIteration\<close> without asking the cursor.
\<close>

theorem C7_keep_short_batch:
  "fetch_calls (IterableDatasetFetcher_init (list_dataset [a, b, c]) True cf False)
       (Idxs [p1, p2, p3, p4] # later)
   = (cf (Batch [a, b, c]), [Inr a, Inr b, Inr c, Inl StopIteration])
       # map (\<lambda>i. (Inl StopIteration, [])) later"
  by (simp add: IterableDatasetFetcher_fetch_def IterableDatasetFetcher_init_def
      list_dataset_def list_next_def fetch_calls_ended)

text \<open>
  C10: \<open>fetch\<close> on lists of positions of the same length, from the same fetcher, gives
  the same result, the same fetcher afterwards and the same calls of \<open>next\<close> with the
  same outcomes. (With \<open>auto_collation\<close> the list is used for its length only; without,
  it is not used at all.)
\<close>

theorem C10_positions_only_counted:
  "length ps = length qs \<Longrightarrow>
     IterableDatasetFetcher_fetch f (Idxs ps) = IterableDatasetFetcher_fetch f (Idxs qs)"
  by (simp add: IterableDatasetFetcher_fetch_def pull_loop_length_only [of ps qs]
      split: prod.splits sum.splits)

theorem C10_positions_only_counted_witness:
  "length [1, 2 :: int] = length [7, 9 :: int]
   \<and> IterableDatasetFetcher_fetch
        (IterableDatasetFetcher_init (list_dataset [10, 20, 30 :: int]) True
           (\<lambda>d. Inr d :: unit error + int data) False) (Idxs [1, 2])
      = IterableDatasetFetcher_fetch
        (IterableDatasetFetcher_init (list_dataset [10, 20, 30 :: int]) True
           (\<lambda>d. Inr d :: unit error + int data) False) (Idxs [7, 9])
   \<and> fst (IterableDatasetFetcher_fetch
        (IterableDatasetFetcher_init (list_dataset [10, 20, 30 :: int]) True
           (\<lambda>d. Inr d :: unit error + int data) False) (Idxs [7, 9]))
      = Inr (Batch [10, 20])"
proof -
  have h: "length [1, 2 :: int] = length [7, 9 :: int]"
    by simp
  have v: "fst (IterableDatasetFetcher_fetch
        (IterableDatasetFetcher_init (list_dataset [10, 20, 30 :: int]) True
           (\<lambda>d. Inr d :: unit error + int data) False) (Idxs [7, 9]))
      = Inr (Batch [10, 20])"
    by (simp add: IterableDatasetFetcher_fetch_def IterableDatasetFetcher_init_def
        list_dataset_def list_next_def)
  from C10_positions_only_counted [OF h] h v show ?thesis
    by blast
qed

section \<open>The map-style fetcher\<close>

text \<open>
  The comprehension calls \<open>dataset[idx]\<close> for the positions in their order and stops
  after the first call that raises: the calls made are those for a prefix of the list.
\<close>

lemma getitem_each_calls:
  "\<exists>n\<le>length ps. snd (getitem_each get ps) = map (\<lambda>p. GetItem (Idx p)) (take n ps)"
proof (induction ps)
  case Nil
  then show ?case by simp
next
  case (Cons p ps)
  then obtain n where n: "n \<le> length ps"
    "snd (getitem_each get ps) = map (\<lambda>p. GetItem (Idx p)) (take n ps)"
    by blast
  show ?case
  proof (cases "get (Idx p)")
    case (Inl e)
    then have "snd (getitem_each get (p # ps)) = map (\<lambda>p. GetItem (Idx p)) (take 1 (p # ps))"
      by simp
    then show ?thesis by (intro exI [of _ 1]) simp
  next
    case (Inr x)
    with n have "snd (getitem_each get (p # ps)) = map (\<lambda>p. GetItem (Idx p)) (take (Suc n) (p # ps))"
      by (auto split: prod.splits sum.splits)
    with n(1) show ?thesis by (intro exI [of _ "Suc n"]) simp
  qed
qed

text \<open>When no call raises, all are made and the samples are listed in the order of the positions.\<close>

lemma getitem_each_all:
  "\<forall>p\<in>set ps. get (Idx p) = Inr (smp p) \<Longrightarrow>
     getitem_each get ps = (Inr (map smp ps), map (\<lambda>p. GetItem (Idx p)) ps)"
  by (induction ps) simp_all

text \<open>A call that was made and raised is what the comprehension raises.\<close>

lemma getitem_each_raised:
  "getitem_each get ps = (r, cs) \<Longrightarrow> GetItem (Idx p) \<in> set cs \<Longrightarrow> get (Idx p) = Inl e \<Longrightarrow> r = Inl e"
proof (induction ps arbitrary: r cs)
  case Nil
  then show ?case by simp
next
  case (Cons q ps)
  show ?case
  proof (cases "get (Idx q)")
    case (Inl e')
    with Cons.prems show ?thesis by auto
  next
    case (Inr x)
    obtain r' cs' where rec: "getitem_each get ps = (r', cs')"
      by (cases "getitem_each get ps")
    with Inr Cons.prems have cs: "cs = GetItem (Idx q) # cs'" and r: "r = map_sum id (Cons x) r'"
      by (auto split: sum.splits)
    from Inr Cons.prems(3) have "p \<noteq> q" by auto
    with cs Cons.prems(2) have "GetItem (Idx p) \<in> set cs'" by simp
    with Cons.IH [OF rec] Cons.prems(3) have "r' = Inl e" by simp
    with r show ?thesis by simp
  qed
qed

lemma MapDatasetFetcher_fetch_raised:
  assumes "MapDatasetFetcher_fetch g idx = (r, cs)" "c \<in> set cs" "raises (dataset g) c e"
  shows "r = Inl e"
proof (cases "auto_collation g")
  case False
  with assms show ?thesis
    by (auto simp: MapDatasetFetcher_fetch_def MapDatasetFetcher_data_def split: sum.splits)
next
  case True
  show ?thesis
  proof (cases "\<exists>bulk. getitems (dataset g) = Method bulk")
    case bulk: True
    with True assms show ?thesis
      by (auto simp: MapDatasetFetcher_fetch_def MapDatasetFetcher_data_def split: sum.splits)
  next
    case nobulk: False
    show ?thesis
    proof (cases idx)
      case (Idx k)
      with True nobulk assms show ?thesis
        by (auto simp: MapDatasetFetcher_fetch_def MapDatasetFetcher_data_def split: attr.splits)
    next
      case (Idxs ps)
      obtain r0 cs0 where ge: "getitem_each (getitem (dataset g)) ps = (r0, cs0)"
        by (cases "getitem_each (getitem (dataset g)) ps")
      with True nobulk Idxs assms(1) have cs: "cs = cs0"
        and r: "r = (case r0 of Inl e \<Rightarrow> Inl e | Inr xs \<Rightarrow> collate_fn g (Batch xs))"
        by (auto simp: MapDatasetFetcher_fetch_def MapDatasetFetcher_data_def
            split: attr.splits sum.splits)
      have "\<exists>n\<le>length ps. cs0 = map (\<lambda>p. GetItem (Idx p)) (take n ps)"
        using getitem_each_calls [of ps "getitem (dataset g)"] ge by simp
      with assms(2) cs obtain p where c: "c = GetItem (Idx p)" by auto
      with assms(3) have "getitem (dataset g) (Idx p) = Inl e" by simp
      with getitem_each_raised [OF ge] assms(2) cs c have "r0 = Inl e" by simp
      with r show ?thesis by simp
    qed
  qed
qed

lemma IterableDatasetFetcher_fetch_raised:
  assumes "IterableDatasetFetcher_fetch f idx = (r, f', tr)" "Inl e \<in> set tr"
    "auto_collation f \<longrightarrow> e \<noteq> StopIteration"
  shows "r = Inl e"
proof (cases "ended f")
  case True
  with assms show ?thesis by (simp add: IterableDatasetFetcher_fetch_def)
next
  case False
  show ?thesis
  proof (cases "auto_collation f")
    case nb: False
    with False assms show ?thesis
      by (auto simp: IterableDatasetFetcher_fetch_def split: prod.splits sum.splits)
  next
    case True
    show ?thesis
    proof (cases idx)
      case (Idx k)
      with True False assms show ?thesis by (simp add: IterableDatasetFetcher_fetch_def)
    next
      case (Idxs ps)
      obtain x it' d' tr' where
        pl: "pull_loop (next_of (dataset f)) ps (dataset_iter f) [] [] = (x, it', d', tr')"
        by (metis prod_cases4)
      with True False Idxs assms(1) have tr: "tr = tr'"
        by (auto simp: IterableDatasetFetcher_fetch_def Let_def split: sum.splits if_splits)
      with pull_loop_raised [OF pl, of e] assms True have x: "x = Inl e" by simp
      with pl True False Idxs assms(1) show ?thesis
        by (simp add: IterableDatasetFetcher_fetch_def)
    qed
  qed
qed

text \<open>
  C8: with \<open>auto_collation\<close>, a dataset with a \<open>__getitems__\<close> method gets exactly one
  call, \<open>__getitems__\<close> on the list of positions as it was given, and the list it returns
  goes to \<open>collate_fn\<close>. A dataset without one (the attribute missing or false) gets
  calls of \<open>__getitem__\<close> on the positions in their order and nothing else, up to the
  first that raises; when none raises, there is one call for each position and
  \<open>collate_fn\<close> gets the samples in the order of the positions.
\<close>

theorem C8_bulk_call_or_one_call_each:
  assumes "auto_collation f"
  shows "(getitems (dataset f) = Method bulk \<longrightarrow>
            MapDatasetFetcher_fetch f (Idxs ps)
            = ((case bulk (Idxs ps) of Inl e \<Rightarrow> Inl e | Inr xs \<Rightarrow> collate_fn f (Batch xs)),
               [GetItems (Idxs ps)]))
       \<and> (getitems (dataset f) = Missing \<or> getitems (dataset f) = Falsy \<longrightarrow>
            (\<exists>n\<le>length ps. snd (MapDatasetFetcher_fetch f (Idxs ps))
                 = map (\<lambda>p. GetItem (Idx p)) (take n ps))
          \<and> ((\<forall>p\<in>set ps. getitem (dataset f) (Idx p) = Inr (smp p)) \<longrightarrow>
                MapDatasetFetcher_fetch f (Idxs ps)
                = (collate_fn f (Batch (map smp ps)), map (\<lambda>p. GetItem (Idx p)) ps)))"
proof (intro conjI impI)
  assume "getitems (dataset f) = Method bulk"
  with assms show "MapDatasetFetcher_fetch f (Idxs ps)
            = ((case bulk (Idxs ps) of Inl e \<Rightarrow> Inl e | Inr xs \<Rightarrow> collate_fn f (Batch xs)),
               [GetItems (Idxs ps)])"
    by (simp add: MapDatasetFetcher_fetch_def MapDatasetFetcher_data_def split: sum.splits)
next
  assume no: "getitems (dataset f) = Missing \<or> getitems (dataset f) = Falsy"
  have "snd (MapDatasetFetcher_fetch f (Idxs ps)) = snd (getitem_each (getitem (dataset f)) ps)"
    using assms no
    by (auto simp: MapDatasetFetcher_fetch_def MapDatasetFetcher_data_def
        split: prod.splits sum.splits)
  then show "\<exists>n\<le>length ps. snd (MapDatasetFetcher_fetch f (Idxs ps))
                 = map (\<lambda>p. GetItem (Idx p)) (take n ps)"
    using getitem_each_calls [of ps "getitem (dataset f)"] by simp
next
  assume no: "getitems (dataset f) = Missing \<or> getitems (dataset f) = Falsy"
    and "\<forall>p\<in>set ps. getitem (dataset f) (Idx p) = Inr (smp p)"
  then have "getitem_each (getitem (dataset f)) ps
      = (Inr (map smp ps), map (\<lambda>p. GetItem (Idx p)) ps)"
    by (rule_tac getitem_each_all)
  with assms no show "MapDatasetFetcher_fetch f (Idxs ps)
                = (collate_fn f (Batch (map smp ps)), map (\<lambda>p. GetItem (Idx p)) ps)"
    by (auto simp: MapDatasetFetcher_fetch_def MapDatasetFetcher_data_def)
qed

text \<open>
  The theorem at the positions \<open>[2, 0, 1]\<close>, for a dataset with \<open>__getitems__\<close> and for
  one without; the sample at position \<open>p\<close> is \<open>10 * p\<close>.
\<close>

theorem C8_bulk_call_or_one_call_each_witness:
  "MapDatasetFetcher_fetch
     \<lparr>dataset = \<lparr>getitem = (\<lambda>i. Inl TypeError),
         getitems = Method (\<lambda>i. case i of Idx k \<Rightarrow> Inl TypeError
                                  | Idxs ps \<Rightarrow> Inr (map (\<lambda>p. 10 * p) ps))\<rparr>,
      auto_collation = True, collate_fn = (\<lambda>d. Inr d :: unit error + int data),
      drop_last = False\<rparr> (Idxs [2, 0, 1])
   = (Inr (Batch [20, 0, 10]), [GetItems (Idxs [2, 0, 1])])
   \<and> MapDatasetFetcher_fetch
     \<lparr>dataset = \<lparr>getitem = (\<lambda>i. case i of Idx k \<Rightarrow> Inr (10 * k) | Idxs ps \<Rightarrow> Inl TypeError),
         getitems = Missing\<rparr>,
      auto_collation = True, collate_fn = (\<lambda>d. Inr d :: unit error + int data),
      drop_last = False\<rparr> (Idxs [2, 0, 1])
   = (Inr (Batch [20, 0, 10]), [GetItem (Idx 2), GetItem (Idx 0), GetItem (Idx 1)])"
proof -
  let ?bulk = "\<lambda>i. case i of Idx k \<Rightarrow> Inl TypeError
                 | Idxs ps \<Rightarrow> (Inr (map (\<lambda>p. 10 * p) ps) :: unit error + int list)"
  let ?f1 = "\<lparr>dataset = \<lparr>getitem = (\<lambda>i. Inl TypeError), getitems = Method ?bulk\<rparr>,
      auto_collation = True, collate_fn = (\<lambda>d. Inr d :: unit error + int data),
      drop_last = False\<rparr>"
  let ?f2 = "\<lparr>dataset = \<lparr>getitem = (\<lambda>i. case i of Idx k \<Rightarrow> Inr (10 * k)
                                       | Idxs ps \<Rightarrow> Inl TypeError),
         getitems = Missing\<rparr>,
      auto_collation = True, collate_fn = (\<lambda>d. Inr d :: unit error + int data),
      drop_last = False\<rparr>"
  have a1: "auto_collation ?f1" and a2: "auto_collation ?f2"
    by simp_all
  have b1: "getitems (dataset ?f1) = Method ?bulk"
    by simp
  have b2: "getitems (dataset ?f2) = Missing \<or> getitems (dataset ?f2) = Falsy"
    by simp
  have c2: "\<forall>p\<in>set [2, 0, 1]. getitem (dataset ?f2) (Idx p) = Inr (10 * p)"
    by simp
  from C8_bulk_call_or_one_call_each [OF a1, of ?bulk "[2, 0, 1]"] b1
  have "MapDatasetFetcher_fetch ?f1 (Idxs [2, 0, 1])
      = (Inr (Batch [20, 0, 10]), [GetItems (Idxs [2, 0, 1])])"
    by simp
  moreover from C8_bulk_call_or_one_call_each [OF a2, of _ "[2, 0, 1]" "\<lambda>p. 10 * p"] b2 c2
  have "MapDatasetFetcher_fetch ?f2 (Idxs [2, 0, 1])
      = (Inr (Batch [20, 0, 10]), [GetItem (Idx 2), GetItem (Idx 0), GetItem (Idx 1)])"
    by simp
  ultimately show ?thesis
    by simp
qed

text \<open>
  C9: an exception raised by the source reaches the caller of \<open>fetch\<close> as it is. For
  the iterable-style fetcher: if a call of \<open>next\<close> made by \<open>fetch\<close> raised \<open>e\<close>, then
  \<open>fetch\<close> raises \<open>e\<close>; with \<open>auto_collation\<close> this is for every \<open>e\<close> but
  \<open>StopIteration\<close>, the end-of-data signal that the loop catches. For the map-style
  fetcher: if a call on the dataset made by \<open>fetch\<close> raised \<open>e\<close>, then \<open>fetch\<close>
  raises \<open>e\<close>.
\<close>

theorem C9_source_errors_propagate:
  "(IterableDatasetFetcher_fetch f idx = (r, f', tr) \<longrightarrow> Inl e \<in> set tr
      \<longrightarrow> (auto_collation f \<longrightarrow> e \<noteq> StopIteration) \<longrightarrow> r = Inl e)
   \<and> (MapDatasetFetcher_fetch g idx' = (r', cs) \<longrightarrow> c \<in> set cs
      \<longrightarrow> raises (dataset g) c e' \<longrightarrow> r' = Inl e')"
  using IterableDatasetFetcher_fetch_raised [of f idx r f' tr e]
    MapDatasetFetcher_fetch_raised [of g idx' r' cs c e']
  by blast

text \<open>
  The theorem at a cursor whose second item raises, and at a dataset that raises at
  position 3 of \<open>[5, 1, 3]\<close>.
\<close>

theorem C9_source_errors_propagate_witness:
  "IterableDatasetFetcher_fetch
     (IterableDatasetFetcher_init
        \<lparr>iter_of = [Inr 1, Inl (Raised ()), Inr (3 :: int)],
         next_of = (\<lambda>xs. case xs of [] \<Rightarrow> (Inl StopIteration, []) | x # r \<Rightarrow> (x, r))\<rparr>
        True (\<lambda>d. Inr d :: unit error + int data) False) (Idxs [0, 1, 2])
   = (Inl (Raised ()),
      (IterableDatasetFetcher_init
        \<lparr>iter_of = [Inr 1, Inl (Raised ()), Inr (3 :: int)],
         next_of = (\<lambda>xs. case xs of [] \<Rightarrow> (Inl StopIteration, []) | x # r \<Rightarrow> (x, r))\<rparr>
        True (\<lambda>d. Inr d :: unit error + int data) False)\<lparr>dataset_iter := [Inr 3]\<rparr>,
      [Inr 1, Inl (Raised ())])
   \<and> MapDatasetFetcher_fetch
     \<lparr>dataset = \<lparr>getitem = (\<lambda>i. if i = Idx 3 then Inl (Raised ()) else Inr (0 :: int)),
         getitems = Missing\<rparr>,
      auto_collation = True, collate_fn = (\<lambda>d. Inr d :: unit error + int data),
      drop_last = False\<rparr> (Idxs [5, 1, 3])
   = (Inl (Raised ()), [GetItem (Idx 5), GetItem (Idx 1), GetItem (Idx 3)])"
proof -
  let ?f = "IterableDatasetFetcher_init
        \<lparr>iter_of = [Inr 1, Inl (Raised ()), Inr (3 :: int)],
         next_of = (\<lambda>xs. case xs of [] \<Rightarrow> (Inl StopIteration, []) | x # r \<Rightarrow> (x, r))\<rparr>
        True (\<lambda>d. Inr d :: unit error + int data) False"
  let ?g = "\<lparr>dataset = \<lparr>getitem = (\<lambda>i. if i = Idx 3 then Inl (Raised ()) else Inr (0 :: int)),
         getitems = Missing\<rparr>,
      auto_collation = True, collate_fn = (\<lambda>d. Inr d :: unit error + int data),
      drop_last = False\<rparr>"
  obtain r f' tr where a: "IterableDatasetFetcher_fetch ?f (Idxs [0, 1, 2]) = (r, f', tr)"
    by (metis prod_cases3)
  then have f': "f' = ?f\<lparr>dataset_iter := [Inr 3]\<rparr>" and tr: "tr = [Inr 1, Inl (Raised ())]"
    by (simp_all add: IterableDatasetFetcher_fetch_def IterableDatasetFetcher_init_def)
  obtain r' cs where b: "MapDatasetFetcher_fetch ?g (Idxs [5, 1, 3]) = (r', cs)"
    by (cases "MapDatasetFetcher_fetch ?g (Idxs [5, 1, 3])")
  then have cs: "cs = [GetItem (Idx 5), GetItem (Idx 1), GetItem (Idx 3)]"
    by (auto simp: MapDatasetFetcher_fetch_def MapDatasetFetcher_data_def)
  have e: "Inl (Raised ()) \<in> set tr" "Raised () \<noteq> (StopIteration :: unit error)"
    using tr by simp_all
  have c: "GetItem (Idx 3) \<in> set cs" "raises (dataset ?g) (GetItem (Idx 3)) (Raised ())"
    using cs by simp_all
  from C9_source_errors_propagate [of ?f "Idxs [0, 1, 2]" r f' tr "Raised ()"
      ?g "Idxs [5, 1, 3]" r' cs "GetItem (Idx 3)" "Raised ()"] a b e c
  have "r = Inl (Raised ())" "r' = Inl (Raised ())"
    by simp_all
  with a b f' tr cs show ?thesis
    by simp
qed

section \<open>The asynchronous fetcher\<close>

text \<open>
  Whatever the schedule and whatever the retrievals do, a run of a worker keeps
  \<open>total\<close>: a position leaves the outstanding ones with its pair put on
  \<open>result_queue\<close>, or without when its retrieval raises.
\<close>

lemma AsyncMapDatasetFetcher_init_workers:
  "AsyncMapDatasetFetcher_init ds ac cf dl n = Inr f \<Longrightarrow> 0 < thread_pool_size f"
  by (auto simp: AsyncMapDatasetFetcher_init_def split: if_splits)

lemma mset_retrieved:
  "mset (retrieved get ps)
   = image_mset (\<lambda>p. (p, projr (get (Idx p)))) (filter_mset (\<lambda>p. \<not> isl (get (Idx p))) (mset ps))"
  by (simp add: retrieved_def)

lemma awaited_update:
  "w < length ws \<Longrightarrow>
     mset (concat (map awaited (ws[w := s]))) + mset (awaited (ws ! w))
     = mset (concat (map awaited ws)) + mset (awaited s)"
proof (induction ws arbitrary: w)
  case Nil
  then show ?case by simp
next
  case (Cons a ws)
  then show ?case by (cases w) simp_all
qed

lemma worker_loop_outstanding:
  assumes "w < length (workers p)"
  shows "mset (outstanding (worker_loop p w)) + mset (awaited (workers p ! w)) = mset (outstanding p)"
    and "result_queue (worker_loop p w) = result_queue p"
    and "printed (worker_loop p w) = printed p"
  using awaited_update [OF assms, of Returned] awaited_update [OF assms]
  by (cases "task_queue p"; simp add: worker_loop_def outstanding_def)+

lemma retrieved_split:
  assumes "mset (outstanding q) + mset ks = mset (outstanding p)"
  shows "mset (retrieved get (outstanding q)) + mset (retrieved get ks)
    = mset (retrieved get (outstanding p))"
  unfolding mset_retrieved assms [symmetric] by simp

text \<open>A worker that gives up its position without a result: the position was not retrievable.\<close>

lemma worker_gives_up:
  assumes w: "w < length (workers p)" and a: "workers p ! w = Awaiting k"
    and e: "get (Idx k) = Inl e" and s: "awaited s = []"
  shows "total get (p\<lparr>workers := (workers p)[w := s]\<rparr>) = total get p"
proof -
  let ?q = "p\<lparr>workers := (workers p)[w := s]\<rparr>"
  have "mset (outstanding ?q) + mset [k] = mset (outstanding p)"
    using awaited_update [OF w, of s] a s by (simp add: outstanding_def)
  from retrieved_split [OF this, of get] e
  have "mset (retrieved get (outstanding ?q)) = mset (retrieved get (outstanding p))"
    by (simp add: retrieved_def)
  then show ?thesis by (simp add: total_def)
qed

lemma worker_total:
  assumes w: "w < length (workers p)"
  shows "total get (worker get prints p w) = total get p"
proof (cases "workers p ! w")
  case Created
  with worker_loop_outstanding [OF w] show ?thesis
    by (simp add: worker_def total_def mset_retrieved)
next
  case Returned
  then show ?thesis by (simp add: worker_def)
next
  case (Stuck k)
  then show ?thesis by (simp add: worker_def)
next
  case (Awaiting k)
  show ?thesis
  proof (cases "get (Idx k)")
    case (Inl e)
    show ?thesis
    proof (cases "e = StopIteration \<or> \<not> prints w e")
      case True
      have "total get (p\<lparr>workers := (workers p)[w := Stuck k]\<rparr>) = total get p"
        by (rule worker_gives_up [where k = k and e = e]) (simp_all add: w Awaiting Inl)
      moreover have "total get (p\<lparr>workers := (workers p)[w := Returned]\<rparr>) = total get p"
        by (rule worker_gives_up [where k = k and e = e]) (simp_all add: w Awaiting Inl)
      ultimately show ?thesis
        using True Awaiting Inl by (auto simp: worker_def worker_resume_def)
    next
      case False
      let ?q = "p\<lparr>printed := printed p @ [(w, e)]\<rparr>"
      have q: "w < length (workers ?q)" "workers ?q ! w = Awaiting k"
        "outstanding ?q = outstanding p" "result_queue ?q = result_queue p"
        using w Awaiting by (simp_all add: outstanding_def)
      have "mset (outstanding (worker_loop ?q w)) + mset [k] = mset (outstanding p)"
        using worker_loop_outstanding(1) [OF q(1)] q by simp
      from retrieved_split [OF this, of get] Inl
      have "mset (retrieved get (outstanding (worker_loop ?q w)))
          = mset (retrieved get (outstanding p))"
        by (simp add: retrieved_def)
      with worker_loop_outstanding(2) [OF q(1)] Awaiting Inl False q
      show ?thesis
        by (simp add: worker_def worker_resume_def total_def)
    qed
  next
    case (Inr r)
    let ?q = "p\<lparr>result_queue := result_queue p @ [(k, r)]\<rparr>"
    have q: "w < length (workers ?q)" "workers ?q ! w = Awaiting k"
      "outstanding ?q = outstanding p" "result_queue ?q = result_queue p @ [(k, r)]"
      using w Awaiting by (simp_all add: outstanding_def)
    have "mset (outstanding (worker_loop ?q w)) + mset [k] = mset (outstanding p)"
      using worker_loop_outstanding(1) [OF q(1)] q by simp
    from retrieved_split [OF this, of get] Inr
    have "add_mset (k, r) (mset (retrieved get (outstanding (worker_loop ?q w))))
        = mset (retrieved get (outstanding p))"
      by (simp add: retrieved_def)
    with worker_loop_outstanding(2) [OF q(1)] Awaiting Inr q
    show ?thesis
      by (simp add: worker_def worker_resume_def total_def)
  qed
qed

lemma live_iff: "w \<in> set (live p) \<longleftrightarrow> w < length (workers p) \<and> runnable (workers p ! w)"
  by (auto simp: live_def)

lemma live_pick:
  "live p \<noteq> [] \<Longrightarrow>
     live p ! (case sched of [] \<Rightarrow> 0 | c # cs \<Rightarrow> c mod length (live p)) < length (workers p)"
proof -
  assume "live p \<noteq> []"
  then have "live p ! (case sched of [] \<Rightarrow> 0 | c # cs \<Rightarrow> c mod length (live p)) \<in> set (live p)"
    by (cases sched) simp_all
  then show ?thesis by (simp add: live_iff)
qed

lemma live_Nil: "live p = [] \<longleftrightarrow> (\<forall>s\<in>set (workers p). \<not> runnable s)"
proof -
  have "live p = [] \<longleftrightarrow> (\<forall>w<length (workers p). \<not> runnable (workers p ! w))"
    using live_iff [of _ p] by (metis all_not_in_conv set_empty)
  then show ?thesis by (simp add: all_set_conv_all_nth)
qed

lemma gather_total: "total get (gather get prints sched p) = total get p"
proof (induction get prints sched p rule: gather.induct)
  case (1 get prints sched p)
  show ?case
  proof (cases "live p = []")
    case True
    then show ?thesis by (subst gather.simps) simp
  next
    case False
    let ?w = "live p ! (case sched of [] \<Rightarrow> 0 | c # cs \<Rightarrow> c mod length (live p))"
    from False have "gather get prints sched p = gather get prints (tl sched) (worker get prints p ?w)"
      by (subst gather.simps) simp
    with "1.IH" [OF False] worker_total [OF live_pick [OF False], of get prints sched]
    show ?thesis by simp
  qed
qed

lemma gather_live: "live (gather get prints sched p) = []"
proof (induction get prints sched p rule: gather.induct)
  case (1 get prints sched p)
  show ?case
  proof (cases "live p = []")
    case True
    then show ?thesis by (subst gather.simps) simp
  next
    case False
    with "1.IH" [OF False] show ?thesis by (subst gather.simps) simp
  qed
qed

text \<open>
  While every retrieval is handled, a run of a worker keeps \<open>serving\<close> as well, and
  \<open>gather\<close> ends with every worker returned and no position outstanding.
\<close>

lemma update_no_stuck:
  "\<forall>s\<in>set ws. \<not> stuck s \<Longrightarrow> \<not> stuck s' \<Longrightarrow> \<forall>s\<in>set (ws[w := s']). \<not> stuck s"
  using set_update_subset_insert [of ws w s'] by auto

lemma worker_loop_serving:
  assumes "serving p"
  shows "serving (worker_loop p w)"
proof (cases "task_queue p")
  case Nil
  from assms have "\<forall>s\<in>set (workers p). \<not> stuck s"
    by (simp add: serving_def)
  then have "\<forall>s\<in>set ((workers p)[w := Returned]). \<not> stuck s"
    by (rule update_no_stuck) simp
  with Nil show ?thesis
    by (simp add: worker_loop_def serving_def)
next
  case (Cons i q)
  with assms have ws: "Returned \<notin> set (workers p)" "workers p \<noteq> []"
    and ns: "\<forall>s\<in>set (workers p). \<not> stuck s"
    by (auto simp: serving_def)
  from ws have "Returned \<notin> set ((workers p)[w := Awaiting i])"
    "(workers p)[w := Awaiting i] \<noteq> []"
    using set_update_subset_insert [of "workers p" w "Awaiting i"] by auto
  moreover from ns have "\<forall>s\<in>set ((workers p)[w := Awaiting i]). \<not> stuck s"
    by (rule update_no_stuck) simp
  ultimately show ?thesis
    using Cons by (simp add: worker_loop_def serving_def)
qed

lemma worker_loop_outstanding_subset:
  assumes "w < length (workers p)"
  shows "set (outstanding (worker_loop p w)) \<subseteq> set (outstanding p)"
proof -
  have "mset (outstanding (worker_loop p w))
      \<subseteq># mset (outstanding (worker_loop p w)) + mset (awaited (workers p ! w))"
    by simp
  then have "mset (outstanding (worker_loop p w)) \<subseteq># mset (outstanding p)"
    by (simp only: worker_loop_outstanding(1) [OF assms])
  from set_mset_mono [OF this] show ?thesis by simp
qed

lemma awaited_outstanding:
  "w < length (workers p) \<Longrightarrow> workers p ! w = Awaiting k \<Longrightarrow> k \<in> set (outstanding p)"
proof -
  assume "w < length (workers p)" "workers p ! w = Awaiting k"
  then have "Awaiting k \<in> set (workers p)" using nth_mem [of w "workers p"] by simp
  then have "k \<in> set (concat (map awaited (workers p)))"
    by (auto intro!: bexI [of _ "Awaiting k"])
  then show ?thesis by (simp add: outstanding_def)
qed

lemma worker_serving:
  assumes w: "w < length (workers p)" and s: "serving p"
    and h: "\<forall>q\<in>set (outstanding p). handled get prints q"
  shows "serving (worker get prints p w)
    \<and> set (outstanding (worker get prints p w)) \<subseteq> set (outstanding p)"
proof (cases "workers p ! w")
  case Created
  with worker_loop_serving [OF s] worker_loop_outstanding_subset [OF w] show ?thesis
    by (simp add: worker_def)
next
  case Returned
  with s show ?thesis by (simp add: worker_def)
next
  case (Stuck k)
  with s show ?thesis by (simp add: worker_def)
next
  case (Awaiting k)
  with w h have hk: "handled get prints k"
    by (auto dest: awaited_outstanding)
  show ?thesis
  proof (cases "get (Idx k)")
    case (Inl e)
    let ?q = "p\<lparr>printed := printed p @ [(w, e)]\<rparr>"
    from hk Inl have e: "e \<noteq> StopIteration" "prints w e"
      by (simp_all add: handled_def)
    have q: "w < length (workers ?q)" "serving ?q" "outstanding ?q = outstanding p"
      using w s by (simp_all add: serving_def outstanding_def)
    from worker_loop_serving [OF q(2), of w] worker_loop_outstanding_subset [OF q(1)] q(3)
      Awaiting Inl e
    show ?thesis
      by (simp add: worker_def worker_resume_def)
  next
    case (Inr r)
    let ?q = "p\<lparr>result_queue := result_queue p @ [(k, r)]\<rparr>"
    have q: "w < length (workers ?q)" "serving ?q" "outstanding ?q = outstanding p"
      using w s by (simp_all add: serving_def outstanding_def)
    from worker_loop_serving [OF q(2), of w] worker_loop_outstanding_subset [OF q(1)] q(3)
      Awaiting Inr
    show ?thesis
      by (simp add: worker_def worker_resume_def)
  qed
qed

lemma gather_serving:
  "serving p \<Longrightarrow> \<forall>q\<in>set (outstanding p). handled get prints q
     \<Longrightarrow> serving (gather get prints sched p)"
proof (induction get prints sched p rule: gather.induct)
  case (1 get prints sched p)
  show ?case
  proof (cases "live p = []")
    case True
    with "1.prems" show ?thesis by (subst gather.simps) simp
  next
    case False
    let ?w = "live p ! (case sched of [] \<Rightarrow> 0 | c # cs \<Rightarrow> c mod length (live p))"
    from worker_serving [OF live_pick [OF False] "1.prems", of sched]
    have s: "serving (worker get prints p ?w)"
      and o: "set (outstanding (worker get prints p ?w)) \<subseteq> set (outstanding p)"
      by simp_all
    from o "1.prems"(2) have "\<forall>q\<in>set (outstanding (worker get prints p ?w)). handled get prints q"
      by blast
    with "1.IH" [OF False s] False show ?thesis by (subst gather.simps) simp
  qed
qed

text \<open>A pool that is serving and has no worker left to run has dealt with every position.\<close>

lemma serving_done:
  assumes "serving p" "live p = []"
  shows "outstanding p = []" and "\<not> list_ex stuck (workers p)"
proof -
  have "s = Returned" if "\<not> runnable s" "\<not> stuck s" for s
    using that by (cases s) simp_all
  with assms have all: "\<forall>s\<in>set (workers p). s = Returned"
    unfolding live_Nil serving_def by blast
  with assms(1) have "task_queue p = []"
    by (cases "workers p") (auto simp: serving_def)
  with all show "outstanding p = []"
    by (auto simp: outstanding_def)
  from assms(1) show "\<not> list_ex stuck (workers p)"
    by (simp add: serving_def list_ex_iff)
qed

lemma total_new_pool: "total get (new_pool n ps) = mset (retrieved get ps)"
  by (simp add: total_def new_pool_def outstanding_def)

text \<open>
  Under every schedule, what the workers put on \<open>result_queue\<close> are pairs of positions
  of the batch whose retrieval returns, no position more often than the batch has it.
\<close>

lemma result_queue_subset:
  "mset (result_queue (gather get prints sched (new_pool n ps))) \<subseteq># mset (retrieved get ps)"
proof -
  have "mset (result_queue (gather get prints sched (new_pool n ps)))
      \<subseteq># total get (gather get prints sched (new_pool n ps))"
    by (simp add: total_def)
  then show ?thesis by (simp add: gather_total total_new_pool)
qed

text \<open>
  With a worker, and every retrieval of the batch handled, they put all these pairs on
  the queue and no worker gets stuck.
\<close>

lemma result_queue_new_pool:
  fixes get :: "pb_index \<Rightarrow> 'e error + 's"
  assumes "0 < n \<or> ps = []" and "\<forall>q\<in>set ps. handled get prints q"
  shows "mset (result_queue (gather get prints sched (new_pool n ps))) = mset (retrieved get ps)"
    and "\<not> list_ex stuck (workers (gather get prints sched (new_pool n ps)))"
proof -
  let ?p = "new_pool n ps :: ('e, 's) pool"
  have s: "serving ?p"
    using assms(1) by (auto simp: serving_def new_pool_def)
  have o: "\<forall>q\<in>set (outstanding ?p). handled get prints q"
    using assms(2) by (simp add: new_pool_def outstanding_def)
  have d: "serving (gather get prints sched ?p)"
    using s o by (rule gather_serving)
  from serving_done [OF d gather_live]
  have e: "outstanding (gather get prints sched ?p) = []"
    and "\<not> list_ex stuck (workers (gather get prints sched ?p))"
    by simp_all
  then show "\<not> list_ex stuck (workers (gather get prints sched (new_pool n ps)))"
    by simp
  have "mset (result_queue (gather get prints sched ?p)) = total get (gather get prints sched ?p)"
    using e by (simp add: total_def retrieved_def)
  then show "mset (result_queue (gather get prints sched (new_pool n ps))) = mset (retrieved get ps)"
    by (simp add: gather_total total_new_pool)
qed

text \<open>
  So \<open>result_list\<close>, after the sort, is then the same under every schedule: the
  retrieved pairs sorted by position (pairs of the same position are equal, so the sort
  puts the list in one order only).
\<close>

lemma result_list_retrieved:
  assumes "0 < thread_pool_size f \<or> ps = []"
    and "\<forall>q\<in>set ps. handled (getitem (dataset f)) prints q"
  shows "result_list f prints sched ps = sort_key fst (retrieved (getitem (dataset f)) ps)"
proof -
  let ?get = "getitem (dataset f)"
  let ?q = "result_queue (gather ?get prints sched (new_pool (thread_pool_size f) ps))"
  have m: "mset ?q = mset (retrieved ?get ps)"
    using assms by (rule result_queue_new_pool)
  then have "set ?q = set (retrieved ?get ps)"
    by (rule mset_eq_setD)
  then have "inj_on fst (set ?q)"
    by (auto simp: retrieved_def inj_on_def)
  with m show ?thesis
    unfolding result_list_def awaited_tasks_def by (intro sort_key_inj_key_eq) simp_all
qed

lemma result_list_subset:
  "mset (result_list f prints sched ps) \<subseteq># mset (retrieved (getitem (dataset f)) ps)"
  by (simp add: result_list_def awaited_tasks_def result_queue_subset)



text \<open>\<open>fetch\<close> when the call returns, and that it returns when every retrieval is handled.\<close>

lemma AsyncMapDatasetFetcher_fetch_Some:
  "AsyncMapDatasetFetcher_fetch f prints sched ps = Some r \<Longrightarrow>
     r = (case collate_fn f of
            Some cf \<Rightarrow>
              (case cf (result_list f prints sched ps) of
                 Inl e \<Rightarrow> Inl e
               | Inr v \<Rightarrow> if 1 < length v then Inr (Collated (v ! 1)) else Inl IndexError)
          | None \<Rightarrow> Inr (Uncollated (result_list f prints sched ps)))"
  by (auto simp: AsyncMapDatasetFetcher_fetch_def initiate_fetch_tasks_def split: if_splits)

lemma AsyncMapDatasetFetcher_fetch_returns:
  assumes "0 < thread_pool_size f \<or> ps = []"
    and "\<forall>q\<in>set ps. handled (getitem (dataset f)) prints q"
  shows "AsyncMapDatasetFetcher_fetch f prints sched ps
     = Some (case collate_fn f of
               Some cf \<Rightarrow>
                 (case cf (result_list f prints sched ps) of
                    Inl e \<Rightarrow> Inl e
                  | Inr v \<Rightarrow> if 1 < length v then Inr (Collated (v ! 1)) else Inl IndexError)
             | None \<Rightarrow> Inr (Uncollated (result_list f prints sched ps)))"
  using result_queue_new_pool(2) [OF assms, of sched]
  by (simp add: AsyncMapDatasetFetcher_fetch_def initiate_fetch_tasks_def awaited_tasks_def)

lemma handled_Inr: "get (Idx q) = Inr x \<Longrightarrow> handled get prints q"
  by (simp add: handled_def)

text \<open>
  A retrieval that raises \<open>StopIteration\<close>: with one worker and the batch \<open>[1, 3, 5]\<close>,
  the worker gets stuck on position 3 and \<open>fetch\<close> does not return.
\<close>

lemma AsyncMapDatasetFetcher_fetch_stuck:
  "AsyncMapDatasetFetcher_fetch
     \<lparr>dataset = \<lparr>getitem = (\<lambda>i. case i of Idx k \<Rightarrow> if k = 3 then Inl StopIteration else Inr (10 * k)
                                  | Idxs ks \<Rightarrow> (Inl TypeError :: unit error + int)),
         getitems = Missing\<rparr>,
      auto_collation = True, collate_fn = (None :: ((int \<times> int) list \<Rightarrow> unit error + int data list) option),
      drop_last = False, thread_pool_size = 1\<rparr>
     prints [] [1, 3, 5]
   = None"
  by (simp add: AsyncMapDatasetFetcher_fetch_def initiate_fetch_tasks_def awaited_tasks_def
      new_pool_def gather.simps live_def worker_def worker_loop_def worker_resume_def)

text \<open>
  C1 asks for a result in the order of the positions of the batch, as the docstring of
  \<open>initiate_fetch_tasks\<close> does. The code at the positions \<open>[5, 1, 3]\<close>, with two
  workers, no \<open>collate_fn\<close> and a dataset on which no retrieval raises: under every
  schedule \<open>fetch\<close> returns the pairs in the order of the positions' values, 1, 3, 5,
  which is not the order of the batch.
\<close>

theorem C1_result_sorted_by_position:
  "AsyncMapDatasetFetcher_fetch
     \<lparr>dataset = \<lparr>getitem = (\<lambda>i. case i of Idx k \<Rightarrow> Inr (smp k) | Idxs ks \<Rightarrow> Inl TypeError),
         getitems = Missing\<rparr>,
      auto_collation = True, collate_fn = None, drop_last = False, thread_pool_size = 2\<rparr>
     prints sched [5, 1, 3]
   = Some (Inr (Uncollated [(1, smp 1), (3, smp 3), (5, smp 5)]))"
  by (simp add: AsyncMapDatasetFetcher_fetch_returns result_list_retrieved handled_def
      retrieved_def)






text \<open>
  C5, in the form that holds. When there is a \<open>collate_fn\<close> and \<open>fetch\<close> returns a
  value, \<open>collate_fn\<close> was given \<open>result_list\<close>, it returned a sequence of at least two
  elements, and \<open>fetch\<close> returns the second of them. When there is no \<open>collate_fn\<close>,
  a \<open>fetch\<close> that returns gives \<open>result_list\<close> itself. \<open>result_list\<close> is a list of
  (position, sample) pairs: each is a position of the batch with the sample that the
  dataset returns for it, no position more often than the batch has it; and when there
  is a worker and every retrieval of the batch is handled, \<open>fetch\<close> returns and the
  list has one pair for every occurrence of a position whose retrieval returns.
\<close>

theorem C5_collate_fn_gets_pairs:
  "(collate_fn f = Some cf \<and> AsyncMapDatasetFetcher_fetch f prints sched ps = Some (Inr res) \<longrightarrow>
      (\<exists>v. cf (result_list f prints sched ps) = Inr v \<and> 1 < length v
         \<and> res = Collated (v ! 1)))
   \<and> (collate_fn f = None \<and> AsyncMapDatasetFetcher_fetch f prints sched ps = Some r \<longrightarrow>
        r = Inr (Uncollated (result_list f prints sched ps)))
   \<and> mset (result_list f prints sched ps) \<subseteq># mset (retrieved (getitem (dataset f)) ps)
   \<and> (0 < thread_pool_size f \<and> (\<forall>q\<in>set ps. handled (getitem (dataset f)) prints q) \<longrightarrow>
        mset (result_list f prints sched ps) = mset (retrieved (getitem (dataset f)) ps)
        \<and> AsyncMapDatasetFetcher_fetch f prints sched ps \<noteq> None)"
proof (intro conjI impI)
  assume "collate_fn f = Some cf \<and> AsyncMapDatasetFetcher_fetch f prints sched ps = Some (Inr res)"
  then show "\<exists>v. cf (result_list f prints sched ps) = Inr v \<and> 1 < length v
      \<and> res = Collated (v ! 1)"
    by (auto dest!: AsyncMapDatasetFetcher_fetch_Some split: sum.splits if_splits)
next
  assume "collate_fn f = None \<and> AsyncMapDatasetFetcher_fetch f prints sched ps = Some r"
  then show "r = Inr (Uncollated (result_list f prints sched ps))"
    by (auto dest!: AsyncMapDatasetFetcher_fetch_Some)
next
  show "mset (result_list f prints sched ps) \<subseteq># mset (retrieved (getitem (dataset f)) ps)"
    by (rule result_list_subset)
next
  assume a: "0 < thread_pool_size f \<and> (\<forall>q\<in>set ps. handled (getitem (dataset f)) prints q)"
  then have w': "0 < thread_pool_size f \<or> ps = []"
    and h: "\<forall>q\<in>set ps. handled (getitem (dataset f)) prints q"
    by simp_all
  show "mset (result_list f prints sched ps) = mset (retrieved (getitem (dataset f)) ps)"
    by (simp add: result_list_retrieved [OF w' h])
  show "AsyncMapDatasetFetcher_fetch f prints sched ps \<noteq> None"
    by (simp add: AsyncMapDatasetFetcher_fetch_returns [OF w' h])
qed

text \<open>The theorem at the positions \<open>[5, 1, 3]\<close> with two workers, with and without a \<open>collate_fn\<close>.\<close>

theorem C5_collate_fn_gets_pairs_witness:
  "AsyncMapDatasetFetcher_fetch
     \<lparr>dataset = \<lparr>getitem = (\<lambda>i. case i of Idx k \<Rightarrow> Inr (10 * k)
                                  | Idxs ks \<Rightarrow> (Inl TypeError :: unit error + int)),
         getitems = Missing\<rparr>,
      auto_collation = True, collate_fn = Some (\<lambda>L. Inr [Batch (map fst L), Batch (map snd L)] :: unit error + int data list),
      drop_last = False, thread_pool_size = 2\<rparr>
     (\<lambda>w e. True) [1] [5, 1, 3]
   = Some (Inr (Collated (Batch [10, 30, 50])))
   \<and> (\<exists>v. (\<lambda>L. Inr [Batch (map fst L), Batch (map snd L)] :: unit error + int data list)
          (result_list
             \<lparr>dataset = \<lparr>getitem = (\<lambda>i. case i of Idx k \<Rightarrow> Inr (10 * k)
                                  | Idxs ks \<Rightarrow> (Inl TypeError :: unit error + int)),
         getitems = Missing\<rparr>,
      auto_collation = True, collate_fn = Some (\<lambda>L. Inr [Batch (map fst L), Batch (map snd L)] :: unit error + int data list),
      drop_last = False, thread_pool_size = 2\<rparr>
             (\<lambda>w e. True) [1] [5, 1, 3]) = Inr v
        \<and> 1 < length v \<and> Collated (Batch [10, 30, 50]) = Collated (v ! 1))
   \<and> mset (result_list
             \<lparr>dataset = \<lparr>getitem = (\<lambda>i. case i of Idx k \<Rightarrow> Inr (10 * k)
                                  | Idxs ks \<Rightarrow> (Inl TypeError :: unit error + int)),
         getitems = Missing\<rparr>,
      auto_collation = True, collate_fn = Some (\<lambda>L. Inr [Batch (map fst L), Batch (map snd L)] :: unit error + int data list),
      drop_last = False, thread_pool_size = 2\<rparr>
             (\<lambda>w e. True) [1] [5, 1, 3])
     = mset [(5, 50), (1, 10), (3, 30)]
   \<and> AsyncMapDatasetFetcher_fetch
     \<lparr>dataset = \<lparr>getitem = (\<lambda>i. case i of Idx k \<Rightarrow> Inr (10 * k)
                                  | Idxs ks \<Rightarrow> (Inl TypeError :: unit error + int)),
         getitems = Missing\<rparr>,
      auto_collation = True, collate_fn = (None :: ((int \<times> int) list \<Rightarrow> unit error + int data list) option),
      drop_last = False, thread_pool_size = 2\<rparr>
     (\<lambda>w e. True) [1] [5, 1, 3]
   = Some (Inr (Uncollated
       (result_list
          \<lparr>dataset = \<lparr>getitem = (\<lambda>i. case i of Idx k \<Rightarrow> Inr (10 * k)
                                  | Idxs ks \<Rightarrow> (Inl TypeError :: unit error + int)),
         getitems = Missing\<rparr>,
      auto_collation = True, collate_fn = (None :: ((int \<times> int) list \<Rightarrow> unit error + int data list) option),
      drop_last = False, thread_pool_size = 2\<rparr>
          (\<lambda>w e. True) [1] [5, 1, 3])))"
proof -
  let ?cf = "(\<lambda>L. Inr [Batch (map fst L), Batch (map snd L)] :: unit error + int data list)"
  let ?d = "\<lparr>getitem = (\<lambda>i. case i of Idx k \<Rightarrow> Inr (10 * k)
                                  | Idxs ks \<Rightarrow> (Inl TypeError :: unit error + int)),
         getitems = Missing\<rparr>"
  let ?f = "\<lparr>dataset = ?d,
      auto_collation = True, collate_fn = Some ?cf,
      drop_last = False, thread_pool_size = 2\<rparr>"
  let ?n = "\<lparr>dataset = ?d,
      auto_collation = True, collate_fn = (None :: ((int \<times> int) list \<Rightarrow> unit error + int data list) option),
      drop_last = False, thread_pool_size = 2\<rparr>"
  let ?pr = "(\<lambda>w e. True) :: nat \<Rightarrow> unit error \<Rightarrow> bool"
  have h: "0 < thread_pool_size ?f \<and> (\<forall>q\<in>set [5, 1, 3]. handled (getitem (dataset ?f)) ?pr q)"
    "0 < thread_pool_size ?n \<and> (\<forall>q\<in>set [5, 1, 3]. handled (getitem (dataset ?n)) ?pr q)"
    by (simp_all add: handled_def)
  have r: "AsyncMapDatasetFetcher_fetch ?f ?pr [1] [5, 1, 3]
      = Some (Inr (Collated (Batch [10, 30, 50])))"
    by (simp add: AsyncMapDatasetFetcher_fetch_returns result_list_retrieved handled_def
        retrieved_def)
  have c: "collate_fn ?f = Some ?cf
      \<and> AsyncMapDatasetFetcher_fetch ?f ?pr [1] [5, 1, 3]
        = Some (Inr (Collated (Batch [10, 30, 50])))"
    using r by simp
  have rt: "retrieved (getitem (dataset ?f)) [5, 1, 3] = [(5, 50), (1, 10), (3, 30)]"
    by (simp add: retrieved_def)
  note tf = C5_collate_fn_gets_pairs [of ?f ?cf ?pr "[1]" "[5, 1, 3]"
      "Collated (Batch [10, 30, 50])"]
  have a: "\<exists>v. ?cf (result_list ?f ?pr [1] [5, 1, 3]) = Inr v
        \<and> 1 < length v \<and> Collated (Batch [10, 30, 50]) = Collated (v ! 1)"
    using tf [THEN conjunct1] c by blast
  have "mset (result_list ?f ?pr [1] [5, 1, 3]) = mset (retrieved (getitem (dataset ?f)) [5, 1, 3])
      \<and> AsyncMapDatasetFetcher_fetch ?f ?pr [1] [5, 1, 3] \<noteq> None"
    using tf [THEN conjunct2, THEN conjunct2, THEN conjunct2] h(1) by (rule mp)
  then have b: "mset (result_list ?f ?pr [1] [5, 1, 3]) = mset [(5, 50), (1, 10), (3, 30)]"
    using rt by simp
  note tn = C5_collate_fn_gets_pairs [of ?n _ ?pr "[1]" "[5, 1, 3]"]
  have "AsyncMapDatasetFetcher_fetch ?n ?pr [1] [5, 1, 3] \<noteq> None"
    using tn [THEN conjunct2, THEN conjunct2, THEN conjunct2] h(2) by blast
  then obtain r' where r': "AsyncMapDatasetFetcher_fetch ?n ?pr [1] [5, 1, 3] = Some r'"
    by blast
  have "collate_fn ?n = None \<and> AsyncMapDatasetFetcher_fetch ?n ?pr [1] [5, 1, 3] = Some r'"
    using r' by simp
  with tn [where r = r', THEN conjunct2, THEN conjunct1]
  have "r' = Inr (Uncollated (result_list ?n ?pr [1] [5, 1, 3]))"
    by (rule mp)
  with r' have d: "AsyncMapDatasetFetcher_fetch ?n ?pr [1] [5, 1, 3]
      = Some (Inr (Uncollated (result_list ?n ?pr [1] [5, 1, 3])))"
    by simp
  from r a b d show ?thesis
    by (intro conjI)
qed

text \<open>
  The claim as stated fails when \<open>collate_fn\<close> is \<open>None\<close>: the call succeeds, nothing is
  collated, and \<open>fetch\<close> returns the list of pairs.
\<close>

theorem C5_counterexample:
  "AsyncMapDatasetFetcher_fetch
     \<lparr>dataset = \<lparr>getitem = (\<lambda>i. case i of Idx k \<Rightarrow> Inr (10 * k)
                                  | Idxs ks \<Rightarrow> (Inl TypeError :: unit error + int)),
         getitems = Missing\<rparr>,
      auto_collation = True, collate_fn = (None :: ((int \<times> int) list \<Rightarrow> unit error + int data list) option),
      drop_last = False, thread_pool_size = 1\<rparr>
     (\<lambda>w e. True) [] [0, 2]
   = Some (Inr (Uncollated [(0, 0), (2, 20)]))"
  by (simp add: AsyncMapDatasetFetcher_fetch_returns result_list_retrieved handled_def
      retrieved_def)

end
